theory Spec2Isabelle
  imports Complex_Main "HOL-Library.AList" "HOL-Library.Product_Lexorder"
    "HOL-Library.List_Lexorder" "HOL-Library.Char_ord"
begin

section \<open>Text formatting helpers\<close>

text \<open>
  Python renders an integer inside an f-string in decimal. \<open>str_nat\<close> is that rendering
  for non-negative integers.
\<close>

definition digit_char :: "nat \<Rightarrow> char" where
  "digit_char d = char_of (48 + d)"

fun str_nat :: "nat \<Rightarrow> string" where
  "str_nat n = (if n < 10 then [digit_char n] else str_nat (n div 10) @ [digit_char (n mod 10)])"

declare str_nat.simps [simp del]

text \<open>\<open>os.path.basename\<close>: what follows the last slash.\<close>

definition basename :: "string \<Rightarrow> string" where
  "basename p = rev (takeWhile (\<lambda>c. c \<noteq> CHR ''/'') (rev p))"

text \<open>
  A stand-in digest for closed examples only (the sum of the bytes of the key); every
  general statement below is about an arbitrary digest \<open>H\<close>.
\<close>

definition byte_sum :: "string \<Rightarrow> nat" where
  "byte_sum s = sum_list (map of_char s)"

section \<open>The consistent hash ring (master/hash\_ring.py)\<close>

text \<open>
  \<open>ConsistentHashRing\<close>: \<open>r_replication_factor\<close> is \<open>self._replication_factor\<close>,
  \<open>r_ring\<close> is the list \<open>self._ring\<close> of (hash, node id) points and \<open>r_nodes\<close> is the
  dict \<open>self._nodes\<close>, kept as an association list in insertion order.
  The digest \<open>_hash_key\<close> (SHA-256 read as an unsigned integer) comes from hashlib; it is
  the parameter \<open>H\<close> of every operation that hashes.
\<close>

record ConsistentHashRing =
  r_replication_factor :: int
  r_ring :: "(nat \<times> string) list"
  r_nodes :: "(string \<times> nat list) list"

definition new_ring :: "int \<Rightarrow> ConsistentHashRing" where
  "new_ring rf = \<lparr>r_replication_factor = rf, r_ring = [], r_nodes = []\<rparr>"

definition vnode_key :: "string \<Rightarrow> nat \<Rightarrow> string" where
  "vnode_key node_id i = node_id @ '':'' @ str_nat i"

definition node_points :: "(string \<Rightarrow> nat) \<Rightarrow> int \<Rightarrow> string \<Rightarrow> nat list" where
  "node_points H rf node_id = map (\<lambda>i. H (vnode_key node_id i)) [0..<nat rf]"

definition add_node :: "(string \<Rightarrow> nat) \<Rightarrow> ConsistentHashRing \<Rightarrow> string \<Rightarrow> ConsistentHashRing" where
  "add_node H r node_id =
     (if node_id \<in> set (map fst (r_nodes r)) then r
      else let points = node_points H (r_replication_factor r) node_id
           in r\<lparr>r_ring := sort_key fst (r_ring r @ map (\<lambda>h. (h, node_id)) points),
                r_nodes := AList.update node_id points (r_nodes r)\<rparr>)"

definition remove_node :: "ConsistentHashRing \<Rightarrow> string \<Rightarrow> ConsistentHashRing" where
  "remove_node r node_id =
     (case map_of (r_nodes r) node_id of
        None \<Rightarrow> r
      | Some points \<Rightarrow>
          r\<lparr>r_ring := filter (\<lambda>(h, n). \<not> (n = node_id \<and> h \<in> set points)) (r_ring r),
            r_nodes := AList.delete node_id (r_nodes r)\<rparr>)"

text \<open>
  \<open>bisect.bisect_right(a, x)\<close>: the binary search of the standard library, with Python's
  lexicographic order on tuples.
\<close>

function bisect_right_loop ::
  "(nat \<times> string) list \<Rightarrow> nat \<times> string \<Rightarrow> nat \<Rightarrow> nat \<Rightarrow> nat" where
  "bisect_right_loop a x lo hi =
     (if lo < hi
      then (let mid = (lo + hi) div 2
            in if x < a ! mid then bisect_right_loop a x lo mid
               else bisect_right_loop a x (mid + 1) hi)
      else lo)"
  by pat_completeness auto
termination
  by (relation "measure (\<lambda>(a, x, lo, hi). hi - lo)") auto

declare bisect_right_loop.simps [simp del]

definition bisect_right :: "(nat \<times> string) list \<Rightarrow> nat \<times> string \<Rightarrow> nat" where
  "bisect_right a x = bisect_right_loop a x 0 (length a)"

text \<open>
  The \<open>while\<close> loop of \<open>get_nodes_for_key\<close>. Nothing in the loop itself bounds the number
  of rounds, so the result is an option: \<open>None\<close> is a walk that never ends.
\<close>

partial_function (option) ring_walk ::
  "(nat \<times> string) list \<Rightarrow> int \<Rightarrow> nat \<Rightarrow> string set \<Rightarrow> string list \<Rightarrow> string list option" where
  "ring_walk ring target i seen selected =
     (if int (length selected) < target
      then (let pos = i mod length ring; node_id = snd (ring ! pos)
            in if node_id \<notin> seen
               then ring_walk ring target (i + 1) (insert node_id seen) (selected @ [node_id])
               else ring_walk ring target (i + 1) seen selected)
      else Some selected)"

definition get_nodes_for_key ::
  "(string \<Rightarrow> nat) \<Rightarrow> ConsistentHashRing \<Rightarrow> string \<Rightarrow> int \<Rightarrow> string list option" where
  "get_nodes_for_key H r key count =
     (if r_ring r = [] then Some []
      else let key_hash = H key;
               idx = bisect_right (r_ring r) (key_hash, '''')
           in ring_walk (r_ring r) (min count (int (length (r_nodes r)))) idx {} [])"

definition nodes :: "ConsistentHashRing \<Rightarrow> string list" where
  "nodes r = map fst (r_nodes r)"

text \<open>A history of membership calls on one ring object.\<close>

datatype ring_op = AddNode string | RemoveNode string

fun ring_step :: "(string \<Rightarrow> nat) \<Rightarrow> ConsistentHashRing \<Rightarrow> ring_op \<Rightarrow> ConsistentHashRing" where
  "ring_step H r (AddNode n) = add_node H r n"
| "ring_step H r (RemoveNode n) = remove_node r n"

definition ring_run :: "(string \<Rightarrow> nat) \<Rightarrow> int \<Rightarrow> ring_op list \<Rightarrow> ConsistentHashRing" where
  "ring_run H rf ops = foldl (ring_step H) (new_ring rf) ops"


section \<open>Messages of the wire protocol\<close>

type_synonym bytes = "char list"

record FileChunk =
  filename :: string
  data :: bytes
  chunk_id :: nat
  total_chunks :: nat

record Ack =
  success :: bool
  message :: string

record UploadStatus =
  status_message :: string

text \<open>
  An RPC either returns its reply or is aborted with a status code and a detail text
  (\<open>context.abort\<close>); an exception that escapes a handler ends the call with
  \<open>UNKNOWN\<close>.
\<close>

datatype status_code = NOT_FOUND | FAILED_PRECONDITION | UNAVAILABLE | UNKNOWN

datatype 'a rpc = Reply 'a | Abort status_code string

section \<open>The storage node (node/node\_server.py)\<close>

text \<open>
  The storage directory of one node: the files in it, by name. \<open>chunk_path\<close> is the
  name of a chunk's file inside that directory.
\<close>

type_synonym node_store = "string \<rightharpoonup> bytes"

definition safe_name :: "string \<Rightarrow> string" where
  "safe_name fn = map (\<lambda>c. if c = CHR ''/'' then CHR ''_'' else c) fn"

definition chunk_path :: "string \<Rightarrow> nat \<Rightarrow> string" where
  "chunk_path fn cid = safe_name fn @ ''.'' @ str_nat cid @ ''.chunk''"

definition StoreChunk :: "node_store \<Rightarrow> FileChunk \<Rightarrow> Ack rpc \<times> node_store" where
  "StoreChunk st request =
     (let p = chunk_path (filename request) (chunk_id request)
      in (Reply \<lparr>success = True, message = ''stored''\<rparr>, st(p \<mapsto> data request)))"

definition GetChunk :: "node_store \<Rightarrow> string \<Rightarrow> nat \<Rightarrow> FileChunk rpc" where
  "GetChunk st fn cid =
     (let p = chunk_path fn cid
      in case st p of
           None \<Rightarrow> Abort NOT_FOUND ''chunk not found''
         | Some d \<Rightarrow> Reply \<lparr>filename = fn, data = d, chunk_id = cid, total_chunks = 0\<rparr>)"

text \<open>A history of store requests served by one node.\<close>

definition store_all :: "node_store \<Rightarrow> FileChunk list \<Rightarrow> node_store" where
  "store_all st requests = foldl (\<lambda>s request. snd (StoreChunk s request)) st requests"

section \<open>The coordinator (master/master\_server.py)\<close>

text \<open>
  The persisted metadata document holds the node-address map and the file index.
  \<open>c_metadata_file\<close> is the content of the file at \<open>metadata_path\<close> (\<open>None\<close>: no file).
  The file index keeps, for a file name, the value stored under \<open>"total_chunks"\<close>.
  Time stamps are the readings of \<open>time.time()\<close>; each handler takes the reading
  \<open>now\<close> that it would make.
\<close>

record metadata =
  md_nodes :: "string \<rightharpoonup> string"
  md_files :: "string \<rightharpoonup> nat"

record Coordinator =
  c_replication :: int
  c_ring :: ConsistentHashRing
  c_node_address :: "string \<rightharpoonup> string"
  c_node_last_heartbeat :: "(string \<times> real) list"
  c_file_index :: "string \<rightharpoonup> nat"
  c_metadata_file :: "metadata option"

definition save_metadata :: "Coordinator \<Rightarrow> Coordinator" where
  "save_metadata c =
     c\<lparr>c_metadata_file := Some \<lparr>md_nodes = c_node_address c, md_files = c_file_index c\<rparr>\<rparr>"

definition RegisterNode ::
  "(string \<Rightarrow> nat) \<Rightarrow> Coordinator \<Rightarrow> real \<Rightarrow> string \<Rightarrow> string \<Rightarrow> Ack rpc \<times> Coordinator" where
  "RegisterNode H c now node_id address =
     (let c1 = c\<lparr>c_node_address := (c_node_address c)(node_id \<mapsto> address),
                 c_node_last_heartbeat := AList.update node_id now (c_node_last_heartbeat c)\<rparr>;
          c2 = (if node_id \<notin> set (nodes (c_ring c1))
                then c1\<lparr>c_ring := add_node H (c_ring c1) node_id\<rparr> else c1)
      in (Reply \<lparr>success = True, message = ''registered''\<rparr>, save_metadata c2))"

definition Heartbeat :: "Coordinator \<Rightarrow> real \<Rightarrow> string \<Rightarrow> Ack rpc \<times> Coordinator" where
  "Heartbeat c now node_id =
     (if c_node_address c node_id \<noteq> None
      then (Reply \<lparr>success = True, message = ''ok''\<rparr>,
            c\<lparr>c_node_last_heartbeat := AList.update node_id now (c_node_last_heartbeat c)\<rparr>)
      else (Reply \<lparr>success = False, message = ''unknown node''\<rparr>, c))"

definition live_nodes :: "Coordinator \<Rightarrow> real \<Rightarrow> string list" where
  "live_nodes c now = map fst (filter (\<lambda>(nid, ts). now - ts \<le> 10) (c_node_last_heartbeat c))"

definition chunk_key :: "string \<Rightarrow> nat \<Rightarrow> string" where
  "chunk_key fn cid = fn @ '':'' @ str_nat cid"

text \<open>
  The placement loop of \<open>UploadFile\<close>, run under the lock: \<open>Inl\<close> is the rejection
  message of an early return, \<open>Inr\<close> the finished \<open>placements\<close> dict. (The loop also
  fills \<open>chunk_map\<close>, which nothing reads.)
\<close>

fun place_chunks ::
  "(string \<Rightarrow> nat) \<Rightarrow> Coordinator \<Rightarrow> string list \<Rightarrow> string \<Rightarrow> FileChunk list \<Rightarrow>
   (nat \<times> string list) list \<Rightarrow> (string + (nat \<times> string list) list) option" where
  "place_chunks H c live fn [] placements = Some (Inr placements)"
| "place_chunks H c live fn (chunk # rest) placements =
     (case get_nodes_for_key H (c_ring c) (chunk_key fn (chunk_id chunk)) (c_replication c) of
        None \<Rightarrow> None
      | Some node_ids \<Rightarrow>
          (let node_ids' = filter (\<lambda>n. n \<in> set live) node_ids
           in if node_ids' = [] then Some (Inl ''no live nodes for chunk'')
              else place_chunks H c live fn rest
                     (AList.update (chunk_id chunk) node_ids' placements)))"

text \<open>
  The network: which storage node answers at an address (\<open>None\<close>: the call fails).
  \<open>store_to_node\<close> is one submitted task; a failing task is logged and changes nothing.
\<close>

type_synonym cluster = "string \<rightharpoonup> node_store"

definition fanout_tasks ::
  "(nat \<times> string list) list \<Rightarrow> FileChunk list \<Rightarrow> (string \<times> FileChunk) list" where
  "fanout_tasks placements chunks =
     concat (map (\<lambda>chunk. case map_of placements (chunk_id chunk) of
                             None \<Rightarrow> []
                           | Some node_ids \<Rightarrow> map (\<lambda>nid. (nid, chunk)) node_ids) chunks)"

definition store_to_node :: "Coordinator \<Rightarrow> cluster \<Rightarrow> string \<times> FileChunk \<Rightarrow> cluster" where
  "store_to_node c cl task =
     (case c_node_address c (fst task) of
        None \<Rightarrow> cl
      | Some address \<Rightarrow>
          (case cl address of
             None \<Rightarrow> cl
           | Some st \<Rightarrow> cl(address \<mapsto> snd (StoreChunk st (snd task)))))"

text \<open>
  \<open>UploadFile\<close> on the buffered request stream \<open>chunks\<close>. The worker pool runs the
  submitted tasks in an order of its own, \<open>order\<close>. The result is \<open>None\<close> when the
  handler never returns.
\<close>

definition UploadFile ::
  "(string \<Rightarrow> nat) \<Rightarrow> Coordinator \<Rightarrow> real \<Rightarrow> cluster \<Rightarrow>
   ((string \<times> FileChunk) list \<Rightarrow> (string \<times> FileChunk) list) \<Rightarrow> FileChunk list \<Rightarrow>
   (UploadStatus rpc \<times> Coordinator \<times> cluster) option" where
  "UploadFile H c now cl order chunks =
     (case chunks of
        [] \<Rightarrow> Some (Reply \<lparr>status_message = ''no data''\<rparr>, c, cl)
      | first # _ \<Rightarrow>
          (let fn = filename first;
               n_total = (if total_chunks first \<noteq> 0 then total_chunks first else length chunks);
               live = live_nodes c now
           in if live = [] then Some (Reply \<lparr>status_message = ''no live nodes''\<rparr>, c, cl)
              else (case place_chunks H c live fn chunks [] of
                      None \<Rightarrow> None
                    | Some (Inl msg) \<Rightarrow> Some (Reply \<lparr>status_message = msg\<rparr>, c, cl)
                    | Some (Inr placements) \<Rightarrow>
                        (let cl' = foldl (store_to_node c) cl (order (fanout_tasks placements chunks));
                             c' = save_metadata (c\<lparr>c_file_index := (c_file_index c)(fn \<mapsto> n_total)\<rparr>)
                         in Some (Reply \<lparr>status_message = ''ok''\<rparr>, c', cl')))))"

text \<open>
  \<open>DownloadFile\<close>: the chunks streamed to the caller and how the stream ended
  (\<open>None\<close>: normally). \<open>try_replicas\<close> is the inner loop over the candidates of one chunk.
\<close>

datatype fetch = Sent FileChunk | NotSent | Raised

fun try_replicas ::
  "Coordinator \<Rightarrow> cluster \<Rightarrow> string list \<Rightarrow> string \<Rightarrow> nat \<Rightarrow> string list \<Rightarrow> fetch" where
  "try_replicas c cl live fn cid [] = NotSent"
| "try_replicas c cl live fn cid (nid # rest) =
     (if nid \<notin> set live then try_replicas c cl live fn cid rest
      else (case c_node_address c nid of
              None \<Rightarrow> Raised
            | Some address \<Rightarrow>
                (case cl address of
                   None \<Rightarrow> try_replicas c cl live fn cid rest
                 | Some st \<Rightarrow>
                     (case GetChunk st fn cid of
                        Reply chunk \<Rightarrow> Sent chunk
                      | Abort code msg \<Rightarrow> try_replicas c cl live fn cid rest))))"

fun download_chunks ::
  "(string \<Rightarrow> nat) \<Rightarrow> Coordinator \<Rightarrow> cluster \<Rightarrow> string list \<Rightarrow> string \<Rightarrow> nat list \<Rightarrow>
   (FileChunk list \<times> (status_code \<times> string) option) option" where
  "download_chunks H c cl live fn [] = Some ([], None)"
| "download_chunks H c cl live fn (cid # rest) =
     (case get_nodes_for_key H (c_ring c) (chunk_key fn cid) (c_replication c) of
        None \<Rightarrow> None
      | Some node_ids \<Rightarrow>
          (case try_replicas c cl live fn cid node_ids of
             Raised \<Rightarrow> Some ([], Some (UNKNOWN, ''KeyError''))
           | NotSent \<Rightarrow> Some ([], Some (UNAVAILABLE, ''chunk '' @ str_nat cid @ '' unavailable''))
           | Sent chunk \<Rightarrow>
               (case download_chunks H c cl live fn rest of
                  None \<Rightarrow> None
                | Some (chunks, ending) \<Rightarrow> Some (chunk # chunks, ending))))"

definition DownloadFile ::
  "(string \<Rightarrow> nat) \<Rightarrow> Coordinator \<Rightarrow> real \<Rightarrow> cluster \<Rightarrow> string \<Rightarrow>
   (FileChunk list \<times> (status_code \<times> string) option) option" where
  "DownloadFile H c now cl fn =
     (case c_file_index c fn of
        None \<Rightarrow> Some ([], Some (NOT_FOUND, ''file not found''))
      | Some n_total \<Rightarrow>
          (let live = live_nodes c now
           in if live = [] then Some ([], Some (FAILED_PRECONDITION, ''no live nodes''))
              else download_chunks H c cl live fn [0..<n_total]))"

section \<open>The client (client/client.py)\<close>

definition DEFAULT_CHUNK_SIZE :: nat where
  "DEFAULT_CHUNK_SIZE = 1024 * 1024"

text \<open>
  \<open>stream_file_chunks\<close> on a file at path \<open>path\<close> whose content is \<open>content\<close>.
  (With \<open>chunk_size = 0\<close> the source raises at the division; the statements below are
  about positive chunk sizes.)
\<close>

definition stream_file_chunks :: "string \<Rightarrow> bytes \<Rightarrow> nat \<Rightarrow> FileChunk list" where
  "stream_file_chunks path content chunk_size =
     (let n_total = (length content + chunk_size - 1) div chunk_size
      in map (\<lambda>i. \<lparr>filename = basename path,
                    data = take chunk_size (drop (i * chunk_size) content),
                    chunk_id = i, total_chunks = n_total\<rparr>) [0..<n_total])"

text \<open>
  \<open>download\<close>: the bytes written to the output path, or the error that ends the command
  when the stream is aborted.
\<close>

definition download ::
  "(string \<Rightarrow> nat) \<Rightarrow> Coordinator \<Rightarrow> real \<Rightarrow> cluster \<Rightarrow> string \<Rightarrow>
   ((status_code \<times> string) + bytes) option" where
  "download H c now cl fn =
     (case DownloadFile H c now cl fn of
        None \<Rightarrow> None
      | Some (parts, Some err) \<Rightarrow> Some (Inl err)
      | Some (parts, None) \<Rightarrow> Some (Inr (concat (map data parts))))"


section \<open>Notions used in the statements\<close>

text \<open>
  What the membership calls keep true of a ring: the registry has no duplicate key and
  records for each node exactly its virtual points, the points are sorted by hash, every
  point belongs to a registered node, and with a positive replication factor every
  registered node has a point.
\<close>

definition ring_inv :: "(string \<Rightarrow> nat) \<Rightarrow> ConsistentHashRing \<Rightarrow> bool" where
  "ring_inv H r \<longleftrightarrow>
     distinct (map fst (r_nodes r)) \<and>
     sorted (map fst (r_ring r)) \<and>
     (\<forall>n pts. (n, pts) \<in> set (r_nodes r) \<longrightarrow> pts = node_points H (r_replication_factor r) n) \<and>
     (\<forall>h n. (h, n) \<in> set (r_ring r) \<longrightarrow>
        n \<in> fst ` set (r_nodes r) \<and> h \<in> set (node_points H (r_replication_factor r) n)) \<and>
     (0 < r_replication_factor r \<longrightarrow> fst ` set (r_nodes r) \<subseteq> snd ` set (r_ring r))"

text \<open>
  Collecting the elements of a list in order, each the first time it is seen:
  \<open>absorb sel xs\<close> continues from what has been collected already.
\<close>

fun absorb :: "'a list \<Rightarrow> 'a list \<Rightarrow> 'a list" where
  "absorb sel [] = sel"
| "absorb sel (x # xs) = absorb (if x \<in> set sel then sel else sel @ [x]) xs"

definition first_seen :: "'a list \<Rightarrow> 'a list" where
  "first_seen xs = absorb [] xs"

text \<open>
  The order in which a walk once around the ring from position \<open>idx\<close> meets the node
  identifiers (after the last point it goes on at the first).
\<close>

definition walk_order :: "(nat \<times> string) list \<Rightarrow> nat \<Rightarrow> string list" where
  "walk_order ring idx = first_seen (map snd (rotate idx ring))"

text \<open>
  Two candidate starting positions for a key hash \<open>kh\<close>: the first point whose hash is
  at least \<open>kh\<close>, and the first point whose hash is strictly greater. Either is the
  length of the list when there is no such point.
\<close>

definition first_at_or_after :: "nat \<Rightarrow> (nat \<times> string) list \<Rightarrow> nat" where
  "first_at_or_after kh ring = length (takeWhile (\<lambda>e. fst e < kh) ring)"

definition first_strictly_after :: "nat \<Rightarrow> (nat \<times> string) list \<Rightarrow> nat" where
  "first_strictly_after kh ring = length (takeWhile (\<lambda>e. fst e \<le> kh) ring)"

section \<open>Properties of the hash ring\<close>


lemma ring_inv_new: "ring_inv H (new_ring rf)"
  by (simp add: ring_inv_def new_ring_def)

lemma node_points_nonempty: "0 < rf \<Longrightarrow> node_points H rf n \<noteq> []"
  by (simp add: node_points_def)

lemma update_fresh: "k \<notin> fst ` set al \<Longrightarrow> AList.update k v al = al @ [(k, v)]"
  by (induction al) auto

lemma ring_inv_add:
  assumes "ring_inv H r"
  shows "ring_inv H (add_node H r n)"
proof (cases "n \<in> fst ` set (r_nodes r)")
  case True
  with assms show ?thesis by (simp add: add_node_def)
next
  case False
  let ?rf = "r_replication_factor r"
  let ?pts = "node_points H ?rf n"
  let ?r' = "add_node H r n"
  have ring': "r_ring ?r' = sort_key fst (r_ring r @ map (\<lambda>h. (h, n)) ?pts)"
    and nodes': "r_nodes ?r' = r_nodes r @ [(n, ?pts)]"
    and rf': "r_replication_factor ?r' = ?rf"
    using False by (simp_all add: add_node_def Let_def update_fresh)
  have d: "distinct (map fst (r_nodes ?r'))"
    using assms False by (simp add: nodes' ring_inv_def)
  have s: "sorted (map fst (r_ring ?r'))"
    by (simp add: ring')
  have p: "\<forall>m pts. (m, pts) \<in> set (r_nodes ?r') \<longrightarrow> pts = node_points H (r_replication_factor ?r') m"
    using assms by (auto simp: nodes' rf' ring_inv_def)
  have e: "\<forall>h m. (h, m) \<in> set (r_ring ?r') \<longrightarrow>
        m \<in> fst ` set (r_nodes ?r') \<and> h \<in> set (node_points H (r_replication_factor ?r') m)"
    using assms by (auto simp: nodes' rf' ring' ring_inv_def)
  have c: "0 < r_replication_factor ?r' \<longrightarrow> fst ` set (r_nodes ?r') \<subseteq> snd ` set (r_ring ?r')"
  proof
    assume pos: "0 < r_replication_factor ?r'"
    then have "?pts \<noteq> []" by (simp add: rf' node_points_nonempty)
    then obtain h where "h \<in> set ?pts" by (cases ?pts) auto
    then have "n \<in> snd ` set (r_ring ?r')" by (force simp: ring')
    moreover have "fst ` set (r_nodes r) \<subseteq> snd ` set (r_ring r)"
      using assms pos by (simp add: ring_inv_def rf')
    ultimately show "fst ` set (r_nodes ?r') \<subseteq> snd ` set (r_ring ?r')"
      by (auto simp: nodes' ring')
  qed
  from d s p e c show ?thesis unfolding ring_inv_def by blast
qed

lemma ring_inv_remove:
  assumes "ring_inv H r"
  shows "ring_inv H (remove_node r n)"
proof (cases "map_of (r_nodes r) n")
  case None
  with assms show ?thesis by (simp add: remove_node_def)
next
  case (Some points)
  let ?rf = "r_replication_factor r"
  let ?r' = "remove_node r n"
  from Some have mem: "(n, points) \<in> set (r_nodes r)" by (rule map_of_SomeD)
  with assms have pts: "points = node_points H ?rf n" by (simp add: ring_inv_def)
  have ring': "r_ring ?r' = filter (\<lambda>(h, m). \<not> (m = n \<and> h \<in> set points)) (r_ring r)"
    and nodes': "r_nodes ?r' = AList.delete n (r_nodes r)"
    and rf': "r_replication_factor ?r' = ?rf"
    using Some by (simp_all add: remove_node_def)
  have keys': "fst ` set (r_nodes ?r') = fst ` set (r_nodes r) - {n}"
    by (auto simp: nodes' AList.delete_eq)
  have ring_set: "set (r_ring ?r') = {e \<in> set (r_ring r). snd e \<noteq> n}"
    using assms by (auto simp: ring' pts ring_inv_def)
  have d: "distinct (map fst (r_nodes ?r'))"
    using assms by (simp add: nodes' ring_inv_def distinct_delete)
  have s: "sorted (map fst (r_ring ?r'))"
    using assms by (simp add: ring' ring_inv_def sorted_map sorted_wrt_filter)
  have p: "\<forall>m pts. (m, pts) \<in> set (r_nodes ?r') \<longrightarrow> pts = node_points H (r_replication_factor ?r') m"
    using assms by (auto simp: nodes' rf' ring_inv_def AList.delete_eq)
  have e: "\<forall>h m. (h, m) \<in> set (r_ring ?r') \<longrightarrow>
        m \<in> fst ` set (r_nodes ?r') \<and> h \<in> set (node_points H (r_replication_factor ?r') m)"
    using assms unfolding keys' ring_set rf' ring_inv_def by auto
  have c: "0 < r_replication_factor ?r' \<longrightarrow> fst ` set (r_nodes ?r') \<subseteq> snd ` set (r_ring ?r')"
    using assms unfolding keys' ring_set rf' ring_inv_def by force
  from d s p e c show ?thesis unfolding ring_inv_def by blast
qed

lemma ring_inv_step: "ring_inv H r \<Longrightarrow> ring_inv H (ring_step H r op)"
  by (cases op) (simp_all add: ring_inv_add ring_inv_remove)

lemma ring_inv_foldl: "ring_inv H r \<Longrightarrow> ring_inv H (foldl (ring_step H) r ops)"
  by (induction ops arbitrary: r) (simp_all add: ring_inv_step)

lemma ring_inv_run: "ring_inv H (ring_run H rf ops)"
  by (simp add: ring_run_def ring_inv_foldl ring_inv_new)

lemma rf_step: "r_replication_factor (ring_step H r op) = r_replication_factor r"
  by (cases op) (simp_all add: add_node_def remove_node_def Let_def split: option.splits)

lemma rf_foldl: "r_replication_factor (foldl (ring_step H) r ops) = r_replication_factor r"
  by (induction ops arbitrary: r) (simp_all add: rf_step)

lemma rf_run: "r_replication_factor (ring_run H rf ops) = rf"
  by (simp add: ring_run_def rf_foldl new_ring_def)



lemma absorb_prefix: "\<exists>ys. absorb sel xs = sel @ ys"
  by (induction xs arbitrary: sel) (auto, metis append.assoc)

lemma take_absorb: "take (length sel) (absorb sel xs) = sel"
  using absorb_prefix [of sel xs] by auto

lemma set_absorb: "set (absorb sel xs) = set sel \<union> set xs"
  by (induction xs arbitrary: sel) auto

lemma distinct_absorb: "distinct sel \<Longrightarrow> distinct (absorb sel xs)"
  by (induction xs arbitrary: sel) auto

lemma length_absorb_le: "length sel \<le> length (absorb sel xs)"
  using absorb_prefix [of sel xs] by auto

lemma distinct_first_seen: "distinct (first_seen xs)"
  by (simp add: first_seen_def distinct_absorb)

lemma set_first_seen: "set (first_seen xs) = set xs"
  by (simp add: first_seen_def set_absorb)

lemma length_first_seen: "length (first_seen xs) = card (set xs)"
  using distinct_card [OF distinct_first_seen, of xs] by (simp add: set_first_seen)

lemma ring_walk_done:
  "\<not> int (length selected) < target \<Longrightarrow> ring_walk ring target i seen selected = Some selected"
  by (subst ring_walk.simps) simp

lemma ring_walk_steps:
  assumes "seen = set selected"
    and "int (length selected) \<le> target"
    and "target \<le> int (length (absorb selected (map (\<lambda>j. snd (ring ! (j mod length ring))) [i..<i + k])))"
  shows "ring_walk ring target i seen selected =
     Some (take (nat target) (absorb selected (map (\<lambda>j. snd (ring ! (j mod length ring))) [i..<i + k])))"
  using assms
proof (induction k arbitrary: i seen selected)
  case 0
  then have "nat target = length selected" by simp
  with 0 show ?case by (simp add: ring_walk_done)
next
  case (Suc k)
  let ?x = "snd (ring ! (i mod length ring))"
  let ?xs = "map (\<lambda>j. snd (ring ! (j mod length ring))) [Suc i..<Suc i + k]"
  have split: "map (\<lambda>j. snd (ring ! (j mod length ring))) [i..<i + Suc k] = ?x # ?xs"
    by (simp add: upt_conv_Cons del: upt_Suc)
  show ?case
  proof (cases "int (length selected) < target")
    case False
    with Suc.prems(2) have "nat target = length selected" by simp
    with False show ?thesis by (simp add: ring_walk_done take_absorb del: upt_Suc)
  next
    case True
    let ?sel' = "if ?x \<in> set selected then selected else selected @ [?x]"
    let ?seen' = "if ?x \<in> set selected then seen else insert ?x seen"
    have step: "ring_walk ring target i seen selected = ring_walk ring target (Suc i) ?seen' ?sel'"
      using True Suc.prems(1) by (subst ring_walk.simps) (simp add: Let_def)
    have a: "?seen' = set ?sel'" using Suc.prems(1) by auto
    have b: "int (length ?sel') \<le> target" using True by auto
    have c: "target \<le> int (length (absorb ?sel' ?xs))"
      using Suc.prems(3) unfolding split by simp
    from Suc.IH [OF a b c] show ?thesis
      unfolding step split by simp
  qed
qed

lemma cycle_rotate:
  assumes "ring \<noteq> []"
  shows "map (\<lambda>j. snd (ring ! (j mod length ring))) [i..<i + length ring] = map snd (rotate i ring)"
proof (rule nth_equalityI)
  show "length (map (\<lambda>j. snd (ring ! (j mod length ring))) [i..<i + length ring]) = length (map snd (rotate i ring))"
    by simp
next
  fix k assume "k < length (map (\<lambda>j. snd (ring ! (j mod length ring))) [i..<i + length ring])"
  then have k: "k < length ring" by simp
  then show "map (\<lambda>j. snd (ring ! (j mod length ring))) [i..<i + length ring] ! k = map snd (rotate i ring) ! k"
    by (simp add: nth_rotate)
qed

lemma ring_inv_card:
  assumes "ring_inv H r" and "r_ring r \<noteq> []"
  shows "card (snd ` set (r_ring r)) = length (r_nodes r)"
proof -
  from assms(2) obtain h n where hn: "(h, n) \<in> set (r_ring r)" by (cases "r_ring r") auto
  with assms(1) have "h \<in> set (node_points H (r_replication_factor r) n)"
    by (simp add: ring_inv_def)
  then have "0 < r_replication_factor r" by (auto simp: node_points_def)
  with assms(1) have "fst ` set (r_nodes r) \<subseteq> snd ` set (r_ring r)"
    by (simp add: ring_inv_def)
  moreover from assms(1) have "snd ` set (r_ring r) \<subseteq> fst ` set (r_nodes r)"
    by (force simp: ring_inv_def)
  ultimately have eq: "snd ` set (r_ring r) = set (map fst (r_nodes r))" by auto
  from assms(1) have "distinct (map fst (r_nodes r))" by (simp add: ring_inv_def)
  then have "card (set (map fst (r_nodes r))) = length (map fst (r_nodes r))"
    by (rule distinct_card)
  then show ?thesis unfolding eq by simp
qed

lemma get_nodes_for_key_walk:
  assumes "ring_inv H r" and "r_ring r \<noteq> []"
  shows "get_nodes_for_key H r key count =
     Some (take (nat (min count (int (length (r_nodes r)))))
             (walk_order (r_ring r) (bisect_right (r_ring r) (H key, ''''))))"
proof -
  let ?ring = "r_ring r"
  let ?idx = "bisect_right ?ring (H key, '''')"
  let ?target = "min count (int (length (r_nodes r)))"
  let ?xs = "map (\<lambda>j. snd (?ring ! (j mod length ?ring))) [?idx..<?idx + length ?ring]"
  have xs: "?xs = map snd (rotate ?idx ?ring)" using assms(2) by (rule cycle_rotate)
  have len: "length (absorb [] ?xs) = length (r_nodes r)"
    using ring_inv_card [OF assms] length_first_seen [of "map snd (rotate ?idx ?ring)"]
    by (simp add: xs first_seen_def)
  show ?thesis
  proof (cases "0 \<le> ?target")
    case True
    have "ring_walk ?ring ?target ?idx {} [] = Some (take (nat ?target) (absorb [] ?xs))"
      by (rule ring_walk_steps) (use True len in simp_all)
    then show ?thesis using assms(2)
      by (simp add: get_nodes_for_key_def Let_def walk_order_def first_seen_def xs)
  next
    case False
    then have "ring_walk ?ring ?target ?idx {} [] = Some []"
      by (simp add: ring_walk_done)
    with False show ?thesis using assms(2)
      by (simp add: get_nodes_for_key_def Let_def)
  qed
qed



lemma bisect_right_loop_bounds:
  assumes "\<forall>i j. i \<le> j \<and> j < length a \<and> x < a ! i \<longrightarrow> x < a ! j"
    and "lo \<le> hi" and "hi \<le> length a"
    and "\<forall>k<lo. \<not> x < a ! k"
    and "\<forall>k. hi \<le> k \<and> k < length a \<longrightarrow> x < a ! k"
  shows "bisect_right_loop a x lo hi \<le> length a \<and>
         (\<forall>k<bisect_right_loop a x lo hi. \<not> x < a ! k) \<and>
         (\<forall>k. bisect_right_loop a x lo hi \<le> k \<and> k < length a \<longrightarrow> x < a ! k)"
  using assms
proof (induction a x lo hi rule: bisect_right_loop.induct)
  case (1 a x lo hi)
  let ?mid = "(lo + hi) div 2"
  show ?case
  proof (cases "lo < hi")
    case False
    then have eq: "bisect_right_loop a x lo hi = lo"
      by (simp add: bisect_right_loop.simps [of a x lo hi])
    from False "1.prems"(2) have "lo = hi" by simp
    with "1.prems"(3,4,5) show ?thesis unfolding eq by simp
  next
    case True
    then have mid: "lo \<le> ?mid" "?mid < hi" by simp_all
    show ?thesis
    proof (cases "x < a ! ?mid")
      case lt: True
      have eq: "bisect_right_loop a x lo hi = bisect_right_loop a x lo ?mid"
        using True lt by (simp add: bisect_right_loop.simps [of a x lo hi])
      have up: "\<forall>k. ?mid \<le> k \<and> k < length a \<longrightarrow> x < a ! k"
        using "1.prems"(1) lt by blast
      have "?mid \<le> length a" using mid "1.prems"(3) by linarith
      from "1.IH"(1) [OF True refl lt "1.prems"(1) mid(1) this "1.prems"(4) up]
      show ?thesis unfolding eq .
    next
      case ge: False
      have eq: "bisect_right_loop a x lo hi = bisect_right_loop a x (?mid + 1) hi"
        using True ge by (simp add: bisect_right_loop.simps [of a x lo hi])
      have low: "\<forall>k<?mid + 1. \<not> x < a ! k"
      proof (intro allI impI)
        fix k assume k: "k < ?mid + 1"
        show "\<not> x < a ! k"
        proof
          assume "x < a ! k"
          moreover have "k \<le> ?mid" using k by simp
          moreover have "?mid < length a" using mid "1.prems"(3) by linarith
          ultimately have "x < a ! ?mid" using "1.prems"(1) by blast
          with ge show False by simp
        qed
      qed
      have "?mid + 1 \<le> hi" using mid by simp
      from "1.IH"(2) [OF True refl ge "1.prems"(1) this "1.prems"(3) low "1.prems"(5)]
      show ?thesis unfolding eq .
    qed
  qed
qed

lemma bisect_right_takeWhile:
  assumes "\<forall>i j. i \<le> j \<and> j < length a \<and> x < a ! i \<longrightarrow> x < a ! j"
  shows "bisect_right a x = length (takeWhile (\<lambda>e. \<not> x < e) a)"
proof -
  let ?r = "bisect_right a x"
  have b: "?r \<le> length a \<and> (\<forall>k<?r. \<not> x < a ! k) \<and> (\<forall>k. ?r \<le> k \<and> k < length a \<longrightarrow> x < a ! k)"
    unfolding bisect_right_def
  proof (rule bisect_right_loop_bounds)
    show "\<forall>i j. i \<le> j \<and> j < length a \<and> x < a ! i \<longrightarrow> x < a ! j" by (rule assms)
  qed auto
  have "takeWhile (\<lambda>e. \<not> x < e) a = take ?r a"
    by (rule takeWhile_eq_take_P_nth) (use b in auto)
  with b show ?thesis by simp
qed

lemma Nil_less_iff: "([] :: string) < b \<longleftrightarrow> b \<noteq> []"
  by (cases b) simp_all

lemma sorted_hash_monotone:
  fixes ring :: "(nat \<times> string) list"
  assumes "sorted (map fst ring)" and "(kh, '''') \<notin> set ring"
  shows "\<forall>i j. i \<le> j \<and> j < length ring \<and> (kh, '''') < ring ! i \<longrightarrow> (kh, '''') < ring ! j"
proof (intro allI impI)
  fix i j assume a: "i \<le> j \<and> j < length ring \<and> (kh, '''') < ring ! i"
  have key: "(kh, '''') < e \<longleftrightarrow> kh \<le> fst e" if "e \<in> set ring" for e
  proof -
    from that assms(2) have "e \<noteq> (kh, '''')" by auto
    then show ?thesis by (cases e) (auto simp: less_prod_def Nil_less_iff)
  qed
  from a have "kh \<le> fst (ring ! i)" using key [of "ring ! i"] by simp
  moreover from assms(1) a have "fst (ring ! i) \<le> fst (ring ! j)"
    using sorted_nth_mono [of "map fst ring" i j] by simp
  ultimately have "kh \<le> fst (ring ! j)" by simp
  with a show "(kh, '''') < ring ! j" using key [of "ring ! j"] by simp
qed

lemma bisect_right_ring:
  fixes ring :: "(nat \<times> string) list"
  assumes "sorted (map fst ring)" and "(kh, '''') \<notin> set ring"
  shows "bisect_right ring (kh, '''') = first_at_or_after kh ring"
proof -
  have "takeWhile (\<lambda>e. \<not> (kh, '''') < e) ring = takeWhile (\<lambda>e. fst e < kh) ring"
  proof (rule takeWhile_cong [OF refl])
    fix e assume "e \<in> set ring"
    with assms(2) have "e \<noteq> (kh, '''')" by auto
    then show "(\<not> (kh, '''') < e) = (fst e < kh)" by (cases e) (auto simp: less_prod_def Nil_less_iff)
  qed
  then show ?thesis
    using bisect_right_takeWhile [OF sorted_hash_monotone [OF assms]]
    by (simp add: first_at_or_after_def)
qed


text \<open>
  C8. After every sequence of \<open>add_node\<close> and \<open>remove_node\<close> calls on a fresh ring,
  whatever its replication factor, the list of points is sorted by hash value.
\<close>

theorem ring_sorted_invariant: "sorted (map fst (r_ring (ring_run H rf ops)))"
  using ring_inv_run [of H rf ops] by (simp add: ring_inv_def)

end
